theory Spec2Isabelle
  imports Complex_Main "HOL-Library.Multiset"
begin

section \<open>Numbers and errors\<close>

text \<open>
  The program computes with numpy's \<^verbatim>\<open>float64\<close>. Rounding is not modelled: a finite float is
  a real number. What is modelled is the part of IEEE arithmetic that the program can
  observe without any exception being raised: numpy divides by zero and takes square roots of
  negative numbers silently, and the outcome is an infinity or a NaN that is stored and passed
  on. Signed zeros are not distinguished (a zero divisor is taken to be \<open>+0\<close>).
\<close>

datatype fl = Fin real | PInf | NInf | NaN

fun fl_neg :: "fl \<Rightarrow> fl" where
  "fl_neg (Fin x) = Fin (- x)"
| "fl_neg PInf = NInf"
| "fl_neg NInf = PInf"
| "fl_neg NaN = NaN"

fun fl_add :: "fl \<Rightarrow> fl \<Rightarrow> fl" where
  "fl_add (Fin x) (Fin y) = Fin (x + y)"
| "fl_add (Fin x) PInf = PInf"
| "fl_add (Fin x) NInf = NInf"
| "fl_add PInf (Fin y) = PInf"
| "fl_add PInf PInf = PInf"
| "fl_add NInf (Fin y) = NInf"
| "fl_add NInf NInf = NInf"
| "fl_add PInf NInf = NaN"
| "fl_add NInf PInf = NaN"
| "fl_add NaN b = NaN"
| "fl_add a NaN = NaN"

definition fl_sub :: "fl \<Rightarrow> fl \<Rightarrow> fl" where
  "fl_sub a b = fl_add a (fl_neg b)"

text \<open>An infinity times a finite number: the sign of the finite factor decides, zero gives NaN.\<close>

fun inf_times :: "bool \<Rightarrow> real \<Rightarrow> fl" where
  "inf_times pos x =
     (if x = 0 then NaN else if (0 < x) = pos then PInf else NInf)"

fun fl_mul :: "fl \<Rightarrow> fl \<Rightarrow> fl" where
  "fl_mul (Fin x) (Fin y) = Fin (x * y)"
| "fl_mul (Fin x) PInf = inf_times True x"
| "fl_mul (Fin x) NInf = inf_times False x"
| "fl_mul PInf (Fin y) = inf_times True y"
| "fl_mul NInf (Fin y) = inf_times False y"
| "fl_mul PInf PInf = PInf"
| "fl_mul NInf NInf = PInf"
| "fl_mul PInf NInf = NInf"
| "fl_mul NInf PInf = NInf"
| "fl_mul NaN b = NaN"
| "fl_mul a NaN = NaN"

text \<open>
  Division: a nonzero finite number over zero is an infinity of its sign, \<open>0 / 0\<close> is NaN, a
  finite number over an infinity is zero, an infinity over an infinity is NaN.
\<close>

fun fl_div :: "fl \<Rightarrow> fl \<Rightarrow> fl" where
  "fl_div (Fin x) (Fin y) =
     (if y = 0 then (if x = 0 then NaN else if 0 < x then PInf else NInf) else Fin (x / y))"
| "fl_div (Fin x) PInf = Fin 0"
| "fl_div (Fin x) NInf = Fin 0"
| "fl_div PInf (Fin y) = (if 0 \<le> y then PInf else NInf)"
| "fl_div NInf (Fin y) = (if 0 \<le> y then NInf else PInf)"
| "fl_div PInf PInf = NaN"
| "fl_div PInf NInf = NaN"
| "fl_div NInf PInf = NaN"
| "fl_div NInf NInf = NaN"
| "fl_div NaN b = NaN"
| "fl_div a NaN = NaN"

fun fl_sqrt :: "fl \<Rightarrow> fl" where
  "fl_sqrt (Fin x) = (if x < 0 then NaN else Fin (sqrt x))"
| "fl_sqrt PInf = PInf"
| "fl_sqrt NInf = NaN"
| "fl_sqrt NaN = NaN"


text \<open>The comparisons of IEEE floats: every comparison with a NaN is false.\<close>

fun fl_le :: "fl \<Rightarrow> fl \<Rightarrow> bool" where
  "fl_le NaN b = False"
| "fl_le a NaN = False"
| "fl_le NInf b = True"
| "fl_le a PInf = True"
| "fl_le (Fin x) (Fin y) = (x \<le> y)"
| "fl_le PInf b = False"
| "fl_le a NInf = False"

definition fl_ge :: "fl \<Rightarrow> fl \<Rightarrow> bool" where
  "fl_ge a b = fl_le b a"


fun fl_isnan :: "fl \<Rightarrow> bool" where
  "fl_isnan NaN = True"
| "fl_isnan a = False"

fun fl_isfinite :: "fl \<Rightarrow> bool" where
  "fl_isfinite (Fin x) = True"
| "fl_isfinite a = False"

text \<open>\<^verbatim>\<open>np.sum\<close> of a vector: the empty sum is \<open>0.0\<close>.\<close>

fun fl_sum :: "fl list \<Rightarrow> fl" where
  "fl_sum [] = Fin 0"
| "fl_sum (x # xs) = fl_add x (fl_sum xs)"

text \<open>
  The exceptions. \<open>ValueError\<close>, \<open>IndexError\<close> and \<open>KeyError\<close> are the ones that numpy and
  pandas raise inside the functions modelled here. \<open>DataError\<close>, \<open>NumericError\<close>,
  \<open>EmptyInputError\<close> and \<open>ClusteringError\<close> are the error kinds of the specification; no
  statement of the source raises them.
\<close>

datatype error =
    ValueError | IndexError | KeyError
  | DataError | NumericError | EmptyInputError | ClusteringError

section \<open>Frontier selectors\<close>

text \<open>
  \<^verbatim>\<open>results\<close> is a \<open>3 \<times> K\<close> array: row 0 the volatilities, row 1 the returns, row 2 the Sharpe
  ratios. It is modelled by its list of \<open>K\<close> columns, one triple
  \<open>(volatility, return, Sharpe)\<close> per trial, so that the three rows have one length by
  construction. \<^verbatim>\<open>weights_record\<close> is the parallel Python list of weight vectors.
\<close>

type_synonym sim_record = "fl \<times> fl \<times> fl"

definition vol_of :: "sim_record \<Rightarrow> fl" where
  "vol_of r = fst r"

definition ret_of :: "sim_record \<Rightarrow> fl" where
  "ret_of r = fst (snd r)"

definition sharpe_of :: "sim_record \<Rightarrow> fl" where
  "sharpe_of r = snd (snd r)"

text \<open>
  \<^verbatim>\<open>np.argmax\<close> scans from the left and keeps the first position of the largest value; it
  moves to position \<open>i\<close> when \<open>\<not> (x\<^sub>i \<le> best)\<close> and stops at the first NaN, which therefore
  counts as the largest value. An empty array raises \<open>ValueError\<close>.
  \<^verbatim>\<open>np.argmin\<close> is the mirror image.
\<close>

fun argmax_scan :: "fl \<Rightarrow> nat \<Rightarrow> nat \<Rightarrow> fl list \<Rightarrow> nat" where
  "argmax_scan mp mi i [] = mi"
| "argmax_scan mp mi i (x # xs) =
     (if fl_isnan mp then mi
      else if \<not> fl_le x mp then argmax_scan x i (Suc i) xs
      else argmax_scan mp mi (Suc i) xs)"

fun np_argmax :: "fl list \<Rightarrow> error + nat" where
  "np_argmax [] = Inl ValueError"
| "np_argmax (x # xs) = Inr (argmax_scan x 0 1 xs)"

fun argmin_scan :: "fl \<Rightarrow> nat \<Rightarrow> nat \<Rightarrow> fl list \<Rightarrow> nat" where
  "argmin_scan mp mi i [] = mi"
| "argmin_scan mp mi i (x # xs) =
     (if fl_isnan mp then mi
      else if \<not> fl_ge x mp then argmin_scan x i (Suc i) xs
      else argmin_scan mp mi (Suc i) xs)"

fun np_argmin :: "fl list \<Rightarrow> error + nat" where
  "np_argmin [] = Inl ValueError"
| "np_argmin (x # xs) = Inr (argmin_scan x 0 1 xs)"

text \<open>
  \<^verbatim>\<open>get_max_sharpe_ratio\<close>: the index comes from row 2; the volatility and the return are
  read from the same column, the allocation from the same position of
  \<^verbatim>\<open>weights_record\<close> (an \<open>IndexError\<close> when that list is too short).
\<close>

definition get_max_sharpe_ratio ::
  "sim_record list \<Rightarrow> 'w list \<Rightarrow> error + (fl \<times> fl \<times> 'w)" where
  "get_max_sharpe_ratio results weights_record =
     (case np_argmax (map sharpe_of results) of
        Inl e \<Rightarrow> Inl e
      | Inr max_sharpe_idx \<Rightarrow>
          (if max_sharpe_idx < length weights_record
           then Inr (vol_of (results ! max_sharpe_idx), ret_of (results ! max_sharpe_idx),
                     weights_record ! max_sharpe_idx)
           else Inl IndexError))"

definition get_min_volatility ::
  "sim_record list \<Rightarrow> 'w list \<Rightarrow> error + (fl \<times> fl \<times> 'w)" where
  "get_min_volatility results weights_record =
     (case np_argmin (map vol_of results) of
        Inl e \<Rightarrow> Inl e
      | Inr min_vol_idx \<Rightarrow>
          (if min_vol_idx < length weights_record
           then Inr (vol_of (results ! min_vol_idx), ret_of (results ! min_vol_idx),
                     weights_record ! min_vol_idx)
           else Inl IndexError))"

section \<open>Vectors, matrices and data frames\<close>

text \<open>
  A pandas \<^verbatim>\<open>DataFrame\<close> is its list of column labels and its list of rows. For the square
  frames returned by \<^verbatim>\<open>cov()\<close> and \<^verbatim>\<open>corr()\<close> the row labels are the column labels again.
\<close>

record ('a, 'v) frame =
  columns :: "'a list"
  rows :: "'v list list"

definition column :: "nat \<Rightarrow> 'v list list \<Rightarrow> 'v list" where
  "column k rs = map (\<lambda>r. r ! k) rs"

definition frame_scale :: "real \<Rightarrow> ('a, fl) frame \<Rightarrow> ('a, fl) frame" where
  "frame_scale c df = df\<lparr>rows := map (map (\<lambda>v. fl_mul v (Fin c))) (rows df)\<rparr>"

text \<open>
  \<^verbatim>\<open>np.dot\<close> of two vectors and of a matrix with a vector. numpy raises \<open>ValueError\<close> when the
  shapes do not fit.
\<close>

definition np_dot :: "fl list \<Rightarrow> fl list \<Rightarrow> error + fl" where
  "np_dot u v =
     (if length u = length v then Inr (fl_sum (map2 fl_mul u v)) else Inl ValueError)"

definition mat_vec :: "fl list list \<Rightarrow> fl list \<Rightarrow> error + fl list" where
  "mat_vec m v =
     (if \<forall>r \<in> set m. length r = length v
      then Inr (map (\<lambda>r. fl_sum (map2 fl_mul r v)) m)
      else Inl ValueError)"

section \<open>Return estimator\<close>

text \<open>
  \<^verbatim>\<open>pct_change\<close>: the first row has no predecessor and is NaN throughout; every later row is
  the price over the price of the row before, minus one. \<^verbatim>\<open>dropna\<close> removes each row that
  holds a NaN. Prices are finite numbers.
\<close>

definition pct_change :: "real list list \<Rightarrow> fl list list" where
  "pct_change rs =
     (case rs of
        [] \<Rightarrow> []
      | r0 # rest \<Rightarrow>
          map (\<lambda>p. NaN) r0
          # map2 (\<lambda>prev cur. map2 (\<lambda>p c. fl_sub (fl_div (Fin c) (Fin p)) (Fin 1)) prev cur)
              rs rest)"

definition dropna :: "fl list list \<Rightarrow> fl list list" where
  "dropna rs = filter (\<lambda>r. \<not> list_ex fl_isnan r) rs"

text \<open>
  The column statistics of pandas, for a column without NaN (which \<^verbatim>\<open>dropna\<close> ensures in
  \<^verbatim>\<open>calculate_metrics\<close>): the mean of no value is NaN (\<open>0 / 0\<close>); the sample covariance divides
  by \<open>T - 1\<close> and is NaN for fewer than two observations; the correlation is the sum of the
  products of deviations over the root of the product of the sums of squares, NaN when that
  root is zero.
\<close>

definition fl_mean :: "fl list \<Rightarrow> fl" where
  "fl_mean xs = fl_div (fl_sum xs) (Fin (real (length xs)))"

definition dev_prod :: "fl list \<Rightarrow> fl list \<Rightarrow> fl" where
  "dev_prod xs ys =
     fl_sum (map2 (\<lambda>x y. fl_mul (fl_sub x (fl_mean xs)) (fl_sub y (fl_mean ys))) xs ys)"

definition cov_entry :: "fl list \<Rightarrow> fl list \<Rightarrow> fl" where
  "cov_entry xs ys =
     (if length xs < 2 then NaN else fl_div (dev_prod xs ys) (Fin (real (length xs - 1))))"


definition df_mean :: "('a, fl) frame \<Rightarrow> fl list" where
  "df_mean df = map (\<lambda>k. fl_mean (column k (rows df))) [0..<length (columns df)]"

definition df_pairwise :: "(fl list \<Rightarrow> fl list \<Rightarrow> fl) \<Rightarrow> ('a, fl) frame \<Rightarrow> ('a, fl) frame" where
  "df_pairwise f df =
     \<lparr>columns = columns df,
      rows = map (\<lambda>i. map (\<lambda>j. f (column i (rows df)) (column j (rows df)))
                         [0..<length (columns df)])
                 [0..<length (columns df)]\<rparr>"

definition df_cov :: "('a, fl) frame \<Rightarrow> ('a, fl) frame" where
  "df_cov df = df_pairwise cov_entry df"


text \<open>
  \<^verbatim>\<open>calculate_metrics\<close>. No statement of it raises: the result type has the error summand only
  so that the claim about \<open>DataError\<close> can be stated.
\<close>

definition calculate_metrics ::
  "('a, real) frame \<Rightarrow> error + (('a, fl) frame \<times> fl list \<times> ('a, fl) frame)" where
  "calculate_metrics data =
     (let returns = \<lparr>columns = columns data, rows = dropna (pct_change (rows data))\<rparr>;
          mean_returns = map (\<lambda>v. fl_mul v (Fin 252)) (df_mean returns);
          cov_matrix = frame_scale 252 (df_cov returns)
      in Inr (returns, mean_returns, cov_matrix))"

section \<open>Portfolio performance and the Monte Carlo simulator\<close>

text \<open>
  \<^verbatim>\<open>mean_returns * weights\<close>, a pandas series times a numpy vector: element by element when the
  lengths agree; a vector of length one is broadcast; any other pair of lengths raises
  \<open>ValueError\<close>.
\<close>

definition series_times :: "fl list \<Rightarrow> fl list \<Rightarrow> error + fl list" where
  "series_times s a =
     (if length a = length s then Inr (map2 fl_mul s a)
      else if length a = 1 then Inr (map (\<lambda>x. fl_mul x (hd a)) s)
      else Inl ValueError)"

text \<open>
  \<^verbatim>\<open>portfolio_performance\<close> returns \<open>(return, volatility)\<close>. The product
  \<^verbatim>\<open>mean_returns * weights\<close> and the two \<^verbatim>\<open>np.dot\<close> raise \<open>ValueError\<close> on shapes that do not
  fit; nothing else raises.
\<close>

definition portfolio_performance ::
  "fl list \<Rightarrow> fl list \<Rightarrow> fl list list \<Rightarrow> error + (fl \<times> fl)" where
  "portfolio_performance weights mean_returns cov_matrix =
     (case series_times mean_returns weights of
        Inl e \<Rightarrow> Inl e
      | Inr products \<Rightarrow>
          (let returns = fl_sum products in
           case mat_vec cov_matrix weights of
             Inl e \<Rightarrow> Inl e
           | Inr cw \<Rightarrow>
               (case np_dot weights cw of
                  Inl e \<Rightarrow> Inl e
                | Inr q \<Rightarrow> Inr (returns, fl_sqrt q))))"

text \<open>
  The random source: \<open>rng i k\<close> is the \<open>k\<close>-th number that \<^verbatim>\<open>np.random.random(num_assets)\<close>
  hands out in trial \<open>i\<close>, a float of the half-open interval \<open>[0, 1)\<close>.
  \<^verbatim>\<open>weights /= np.sum(weights)\<close> divides each draw by the sum of the draws.
\<close>

definition draw_weights :: "(nat \<Rightarrow> nat \<Rightarrow> real) \<Rightarrow> nat \<Rightarrow> nat \<Rightarrow> fl list" where
  "draw_weights rng num_assets i =
     (let weights = map (\<lambda>k. Fin (rng i k)) [0..<num_assets]
      in map (\<lambda>x. fl_div x (fl_sum weights)) weights)"

text \<open>One trial per index, in order; an exception in a trial leaves the function.\<close>

fun trials ::
  "(nat \<Rightarrow> nat \<Rightarrow> real) \<Rightarrow> fl list \<Rightarrow> fl list list \<Rightarrow> real \<Rightarrow> nat list
   \<Rightarrow> error + (sim_record list \<times> fl list list)" where
  "trials rng mean_returns cov_matrix risk_free_rate [] = Inr ([], [])"
| "trials rng mean_returns cov_matrix risk_free_rate (i # is) =
     (let weights = draw_weights rng (length mean_returns) i in
      case portfolio_performance weights mean_returns cov_matrix of
        Inl e \<Rightarrow> Inl e
      | Inr (portfolio_return, portfolio_std) \<Rightarrow>
          (case trials rng mean_returns cov_matrix risk_free_rate is of
             Inl e \<Rightarrow> Inl e
           | Inr (results, weights_record) \<Rightarrow>
               Inr ((portfolio_std, portfolio_return,
                     fl_div (fl_sub portfolio_return (Fin risk_free_rate)) portfolio_std)
                    # results,
                    weights # weights_record)))"

definition simulate_efficient_frontier ::
  "(nat \<Rightarrow> nat \<Rightarrow> real) \<Rightarrow> fl list \<Rightarrow> fl list list \<Rightarrow> nat \<Rightarrow> real
   \<Rightarrow> error + (sim_record list \<times> fl list list)" where
  "simulate_efficient_frontier rng mean_returns cov_matrix num_portfolios risk_free_rate =
     trials rng mean_returns cov_matrix risk_free_rate [0..<num_portfolios]"

section \<open>Hierarchical risk parity\<close>

subsection \<open>Inverse-variance weights and the variance of a cluster\<close>








subsection \<open>Quasi-diagonal ordering\<close>

text \<open>
  A row of the linkage array is \<open>(child 0, child 1, distance, member count)\<close>, four floats.
  \<^verbatim>\<open>astype(int)\<close> truncates each towards zero.
\<close>

type_synonym link_row = "real \<times> real \<times> real \<times> real"
type_synonym int_row = "int \<times> int \<times> int \<times> int"

definition trunc :: "real \<Rightarrow> int" where
  "trunc x = (if 0 \<le> x then \<lfloor>x\<rfloor> else \<lceil>x\<rceil>)"

definition astype_int :: "link_row list \<Rightarrow> int_row list" where
  "astype_int link = map (\<lambda>(a, b, d, n). (trunc a, trunc b, trunc d, trunc n)) link"

definition child0 :: "int_row \<Rightarrow> int" where
  "child0 r = fst r"

definition child1 :: "int_row \<Rightarrow> int" where
  "child1 r = fst (snd r)"

definition count_of :: "int_row \<Rightarrow> int" where
  "count_of r = snd (snd (snd r))"

text \<open>
  One pass of the loop body: the index is spread to the even positions, every entry
  \<open>x \<ge> numItems\<close> is overwritten by \<open>link[x - numItems, 0]\<close> and \<open>link[x - numItems, 1]\<close> is
  put at the odd position behind it, and the series is sorted by position again. So each
  cluster identifier is replaced, in place, by its two children.
\<close>

definition expand :: "int_row list \<Rightarrow> int \<Rightarrow> int \<Rightarrow> int list" where
  "expand link numItems x =
     (if x \<ge> numItems
      then [child0 (link ! nat (x - numItems)), child1 (link ! nat (x - numItems))]
      else [x])"

text \<open>
  The loop runs while the largest entry is at least \<open>numItems\<close>. \<open>link[j, 0]\<close> raises
  \<open>IndexError\<close> when some \<open>j = x - numItems\<close> is not a row. Nothing bounds the number of
  passes, so the loop is a partial function: \<open>None\<close> is a run that never returns.
\<close>

partial_function (option) quasi_while ::
  "int_row list \<Rightarrow> int \<Rightarrow> int list \<Rightarrow> (error + int list) option" where
  "quasi_while link numItems sortIx =
     (if \<exists>x \<in> set sortIx. x \<ge> numItems
      then (if \<forall>x \<in> set sortIx. x \<ge> numItems \<longrightarrow> nat (x - numItems) < length link
            then quasi_while link numItems (concat (map (expand link numItems) sortIx))
            else Some (Inl IndexError))
      else Some (Inr sortIx))"

definition getQuasiDiag :: "link_row list \<Rightarrow> (error + int list) option" where
  "getQuasiDiag link0 =
     (let link = astype_int link0 in
      if link = [] then Some (Inl IndexError)
      else quasi_while link (count_of (last link)) [child0 (last link), child1 (last link)])"

subsection \<open>Recursive bisection\<close>











subsection \<open>The allocation\<close>




section \<open>Notions of the statements and proofs\<close>

subsection \<open>Cluster trees\<close>

text \<open>
  The linkage array after \<^verbatim>\<open>astype(int)\<close>, over \<open>n\<close> original items: row \<open>j\<close> creates the
  cluster with identifier \<open>n + j\<close>. \<open>bounded_children\<close> says that every child of a row is an
  identifier below the row's own, so an original item or a cluster of an earlier row. A
  cluster tree over \<open>N\<close> leaves has \<open>N - 1\<close> rows, the last with member count \<open>N\<close>, children
  that are identifiers \<open>\<ge> 0\<close>, bounded as above, and no identifier that is a child twice:
  every merge joins two clusters that exist and have not been merged yet.
\<close>

definition kids :: "int_row \<Rightarrow> int list" where
  "kids r = [child0 r, child1 r]"

definition bounded_children :: "int_row list \<Rightarrow> int \<Rightarrow> bool" where
  "bounded_children link n =
     (\<forall>j \<in> set [0..<length link].
         child0 (link ! j) < n + int j \<and> child1 (link ! j) < n + int j)"

definition cluster_tree :: "nat \<Rightarrow> int_row list \<Rightarrow> bool" where
  "cluster_tree N link =
     (2 \<le> N \<and> length link = N - 1 \<and> count_of (last link) = int N
      \<and> bounded_children link (int N)
      \<and> (\<forall>r \<in> set link. 0 \<le> child0 r \<and> 0 \<le> child1 r)
      \<and> distinct (concat (map kids link)))"

text \<open>
  The original items below an identifier, from left to right, and the largest cluster
  identifier of a list, counted from \<open>n - 1\<close> (zero when the list holds original items only).
\<close>

function leaves :: "int_row list \<Rightarrow> int \<Rightarrow> int \<Rightarrow> int list" where
  "leaves link n x =
     (if n \<le> x \<and> nat (x - n) < length link
         \<and> child0 (link ! nat (x - n)) < x \<and> child1 (link ! nat (x - n)) < x
      then leaves link n (child0 (link ! nat (x - n))) @ leaves link n (child1 (link ! nat (x - n)))
      else [x])"
  by pat_completeness auto
termination
  by (relation "measure (\<lambda>(link, n, x). nat (x - n + 1))") auto

declare leaves.simps [simp del]

fun height :: "int \<Rightarrow> int list \<Rightarrow> nat" where
  "height n [] = 0"
| "height n (x # xs) = max (nat (x - n + 1)) (height n xs)"

subsection \<open>Covariance frames\<close>














section \<open>The selectors pick the extremes\<close>

lemma fl_le_total: "\<not> fl_isnan a \<Longrightarrow> \<not> fl_isnan b \<Longrightarrow> fl_le a b \<or> fl_le b a"
  by (cases a; cases b) auto

lemma fl_le_refl: "\<not> fl_isnan a \<Longrightarrow> fl_le a a"
  by (cases a) auto

lemma fl_le_trans: "fl_le a b \<Longrightarrow> fl_le b c \<Longrightarrow> fl_le a c"
  by (cases a; cases b; cases c) auto

lemma drop_eq_Cons:
  assumes "x # xs = drop i ys"
  shows "i < length ys" and "x = ys ! i" and "xs = drop (Suc i) ys"
proof -
  show i: "i < length ys"
    using assms by (cases "i < length ys") auto
  with assms show "x = ys ! i" and "xs = drop (Suc i) ys"
    by (simp_all add: Cons_nth_drop_Suc [symmetric])
qed

lemma argmax_scan_inv:
  assumes "\<forall>x\<in>set ys. \<not> fl_isnan x" and "xs = drop i ys" and "mi < i" and "i \<le> length ys"
    and "\<forall>j<i. fl_le (ys ! j) (ys ! mi)" and "\<forall>j<mi. ys ! j \<noteq> ys ! mi"
  shows "argmax_scan (ys ! mi) mi i xs < length ys
       \<and> (\<forall>j<length ys. fl_le (ys ! j) (ys ! argmax_scan (ys ! mi) mi i xs))
       \<and> (\<forall>j<argmax_scan (ys ! mi) mi i xs. ys ! j \<noteq> ys ! argmax_scan (ys ! mi) mi i xs)"
  using assms
proof (induction xs arbitrary: i mi)
  case Nil
  then have "i = length ys" by simp
  with Nil show ?case by simp
next
  case (Cons x xs)
  note d = drop_eq_Cons [OF Cons.prems(2)]
  have nn: "\<not> fl_isnan (ys ! mi)" "\<not> fl_isnan x"
    using Cons.prems(1,3) d by auto
  show ?case
  proof (cases "fl_le x (ys ! mi)")
    case True
    have a: "\<forall>j<Suc i. fl_le (ys ! j) (ys ! mi)"
      using Cons.prems(5) True d(2) by (auto simp: less_Suc_eq)
    have "mi < Suc i" using Cons.prems(3) by simp
    from Cons.IH [OF Cons.prems(1) d(3) this _ a Cons.prems(6)] d(1)
    show ?thesis using True nn by (simp add: d(2))
  next
    case False
    with nn have le: "fl_le (ys ! mi) x" using fl_le_total by blast
    have a: "\<forall>j<Suc i. fl_le (ys ! j) (ys ! i)"
      using Cons.prems(5) le d(2) nn fl_le_refl fl_le_trans by (auto simp: less_Suc_eq)
    have b: "\<forall>j<i. ys ! j \<noteq> ys ! i"
      using Cons.prems(5) False d(2) by auto
    from Cons.IH [OF Cons.prems(1) d(3) _ _ a b] d(1)
    show ?thesis using False nn by (simp add: d(2))
  qed
qed

lemma argmin_scan_inv:
  assumes "\<forall>x\<in>set ys. \<not> fl_isnan x" and "xs = drop i ys" and "mi < i" and "i \<le> length ys"
    and "\<forall>j<i. fl_le (ys ! mi) (ys ! j)" and "\<forall>j<mi. ys ! j \<noteq> ys ! mi"
  shows "argmin_scan (ys ! mi) mi i xs < length ys
       \<and> (\<forall>j<length ys. fl_le (ys ! argmin_scan (ys ! mi) mi i xs) (ys ! j))
       \<and> (\<forall>j<argmin_scan (ys ! mi) mi i xs. ys ! j \<noteq> ys ! argmin_scan (ys ! mi) mi i xs)"
  using assms
proof (induction xs arbitrary: i mi)
  case Nil
  then have "i = length ys" by simp
  with Nil show ?case by simp
next
  case (Cons x xs)
  note d = drop_eq_Cons [OF Cons.prems(2)]
  have nn: "\<not> fl_isnan (ys ! mi)" "\<not> fl_isnan x"
    using Cons.prems(1,3) d by auto
  show ?case
  proof (cases "fl_le (ys ! mi) x")
    case True
    have a: "\<forall>j<Suc i. fl_le (ys ! mi) (ys ! j)"
      using Cons.prems(5) True d(2) by (auto simp: less_Suc_eq)
    have "mi < Suc i" using Cons.prems(3) by simp
    from Cons.IH [OF Cons.prems(1) d(3) this _ a Cons.prems(6)] d(1)
    show ?thesis using True nn by (simp add: d(2) fl_ge_def)
  next
    case False
    with nn have le: "fl_le x (ys ! mi)" using fl_le_total by blast
    have a: "\<forall>j<Suc i. fl_le (ys ! i) (ys ! j)"
      using Cons.prems(5) le d(2) nn fl_le_refl fl_le_trans by (auto simp: less_Suc_eq)
    have b: "\<forall>j<i. ys ! j \<noteq> ys ! i"
      using Cons.prems(5) False d(2) by auto
    from Cons.IH [OF Cons.prems(1) d(3) _ _ a b] d(1)
    show ?thesis using False nn by (simp add: d(2) fl_ge_def)
  qed
qed

lemma np_argmax_first_max:
  assumes "ys \<noteq> []" and "\<forall>x\<in>set ys. \<not> fl_isnan x"
  shows "\<exists>i<length ys. np_argmax ys = Inr i \<and> (\<forall>j<length ys. fl_le (ys ! j) (ys ! i))
           \<and> (\<forall>j<i. ys ! j \<noteq> ys ! i)"
proof -
  from assms(1) obtain y ys' where ys: "ys = y # ys'" by (cases ys) auto
  have "\<not> fl_isnan y" using assms(2) ys by simp
  then have r: "\<forall>j<1. fl_le (ys ! j) (ys ! 0)"
    by (simp add: ys fl_le_refl)
  have "ys' = drop 1 ys" by (simp add: ys)
  from argmax_scan_inv [OF assms(2) this _ _ r] ys
  show ?thesis by simp
qed

lemma np_argmin_first_min:
  assumes "ys \<noteq> []" and "\<forall>x\<in>set ys. \<not> fl_isnan x"
  shows "\<exists>i<length ys. np_argmin ys = Inr i \<and> (\<forall>j<length ys. fl_le (ys ! i) (ys ! j))
           \<and> (\<forall>j<i. ys ! j \<noteq> ys ! i)"
proof -
  from assms(1) obtain y ys' where ys: "ys = y # ys'" by (cases ys) auto
  have "\<not> fl_isnan y" using assms(2) ys by simp
  then have r: "\<forall>j<1. fl_le (ys ! 0) (ys ! j)"
    by (simp add: ys fl_le_refl)
  have "ys' = drop 1 ys" by (simp add: ys)
  from argmin_scan_inv [OF assms(2) this _ _ r] ys
  show ?thesis by simp
qed

text \<open>
  Claim C2, as amended. For every non-empty run of \<open>K\<close> records with its \<open>K\<close> weight vectors:
  if no Sharpe ratio of the run is NaN, the Max-Sharpe selector returns the volatility, the
  return and the weight vector of one and the same record \<open>i\<close>, whose Sharpe ratio is at
  least that of every record, and no earlier record has the same Sharpe ratio (first
  occurrence in draw order); if no volatility of the run is NaN, the Min-Volatility selector
  does the same for the smallest volatility.
\<close>

theorem selectors_extremal:
  assumes "results \<noteq> []" and "length weights_record = length results"
  shows "((\<forall>r \<in> set results. \<not> fl_isnan (sharpe_of r)) \<longrightarrow>
            (\<exists>i<length results.
               get_max_sharpe_ratio results weights_record
                 = Inr (vol_of (results ! i), ret_of (results ! i), weights_record ! i)
               \<and> (\<forall>j<length results. fl_ge (sharpe_of (results ! i)) (sharpe_of (results ! j)))
               \<and> (\<forall>j<i. sharpe_of (results ! j) \<noteq> sharpe_of (results ! i))))
       \<and> ((\<forall>r \<in> set results. \<not> fl_isnan (vol_of r)) \<longrightarrow>
            (\<exists>i<length results.
               get_min_volatility results weights_record
                 = Inr (vol_of (results ! i), ret_of (results ! i), weights_record ! i)
               \<and> (\<forall>j<length results. fl_le (vol_of (results ! i)) (vol_of (results ! j)))
               \<and> (\<forall>j<i. vol_of (results ! j) \<noteq> vol_of (results ! i))))"
proof (intro conjI impI)
  assume nn: "\<forall>r \<in> set results. \<not> fl_isnan (sharpe_of r)"
  have "map sharpe_of results \<noteq> []" using assms(1) by simp
  moreover have "\<forall>x\<in>set (map sharpe_of results). \<not> fl_isnan x" using nn by simp
  ultimately obtain i where i: "i < length results"
    and am: "np_argmax (map sharpe_of results) = Inr i"
    and mx: "\<forall>j<length results. fl_le (map sharpe_of results ! j) (map sharpe_of results ! i)"
    and fst: "\<forall>j<i. map sharpe_of results ! j \<noteq> map sharpe_of results ! i"
    using np_argmax_first_max [of "map sharpe_of results"] by auto
  show "\<exists>i<length results.
          get_max_sharpe_ratio results weights_record
            = Inr (vol_of (results ! i), ret_of (results ! i), weights_record ! i)
          \<and> (\<forall>j<length results. fl_ge (sharpe_of (results ! i)) (sharpe_of (results ! j)))
          \<and> (\<forall>j<i. sharpe_of (results ! j) \<noteq> sharpe_of (results ! i))"
    using i am mx fst assms(2)
    by (intro exI [of _ i]) (simp add: get_max_sharpe_ratio_def fl_ge_def)
next
  assume nn: "\<forall>r \<in> set results. \<not> fl_isnan (vol_of r)"
  have "map vol_of results \<noteq> []" using assms(1) by simp
  moreover have "\<forall>x\<in>set (map vol_of results). \<not> fl_isnan x" using nn by simp
  ultimately obtain i where i: "i < length results"
    and am: "np_argmin (map vol_of results) = Inr i"
    and mx: "\<forall>j<length results. fl_le (map vol_of results ! i) (map vol_of results ! j)"
    and fst: "\<forall>j<i. map vol_of results ! j \<noteq> map vol_of results ! i"
    using np_argmin_first_min [of "map vol_of results"] by auto
  show "\<exists>i<length results.
          get_min_volatility results weights_record
            = Inr (vol_of (results ! i), ret_of (results ! i), weights_record ! i)
          \<and> (\<forall>j<length results. fl_le (vol_of (results ! i)) (vol_of (results ! j)))
          \<and> (\<forall>j<i. vol_of (results ! j) \<noteq> vol_of (results ! i))"
    using i am mx fst assms(2)
    by (intro exI [of _ i]) (simp add: get_min_volatility_def)
qed

theorem selectors_extremal_witness:
  "get_max_sharpe_ratio [(Fin 2, Fin 1, Fin (1/2)), (Fin 1, Fin 3, Fin 3), (Fin 1, Fin 3, Fin 3)]
      [[Fin 1, Fin 0], [Fin 0, Fin 1], [Fin (1/2), Fin (1/2)]]
     = Inr (Fin 1, Fin 3, [Fin 0, Fin 1])
   \<and> get_min_volatility [(Fin 2, Fin 1, Fin (1/2)), (Fin 1, Fin 3, Fin 3), (Fin 1, Fin 3, Fin 3)]
      [[Fin 1, Fin 0], [Fin 0, Fin 1], [Fin (1/2), Fin (1/2)]]
     = Inr (Fin 1, Fin 3, [Fin 0, Fin 1])"
  using selectors_extremal [of "[(Fin 2, Fin 1, Fin (1/2)), (Fin 1, Fin 3, Fin 3), (Fin 1, Fin 3, Fin 3)]"
      "[[Fin 1, Fin 0], [Fin 0, Fin 1], [Fin (1/2), Fin (1/2)]]"]
  by (simp add: get_max_sharpe_ratio_def get_min_volatility_def sharpe_of_def vol_of_def ret_of_def fl_ge_def)

text \<open>
  Claim C2 as stated fails on a run that holds a NaN. The simulator records one when a trial
  has volatility zero and a return equal to the risk-free rate: here two perfectly
  anti-correlated assets of mean return 0, a risk-free rate of 0, and the draws
  \<open>(1/2, 1/2)\<close> and \<open>(3/4, 1/4)\<close>. \<^verbatim>\<open>np.argmax\<close> answers with the position of the NaN, and a NaN
  is not greater than or equal to the Sharpe ratio 0 of the other record.
\<close>

theorem selectors_nan_counterexample:
  "simulate_efficient_frontier (\<lambda>i k. if i = 0 then 1/2 else if k = 0 then 3/4 else 1/4)
      [Fin 0, Fin 0] [[Fin 1, Fin (- 1)], [Fin (- 1), Fin 1]] 2 0
     = Inr ([(Fin 0, Fin 0, NaN), (Fin (1/2), Fin 0, Fin 0)],
            [[Fin (1/2), Fin (1/2)], [Fin (3/4), Fin (1/4)]])
   \<and> get_max_sharpe_ratio [(Fin 0, Fin 0, NaN), (Fin (1/2), Fin 0, Fin 0)]
        [[Fin (1/2), Fin (1/2)], [Fin (3/4), Fin (1/4)]]
     = Inr (Fin 0, Fin 0, [Fin (1/2), Fin (1/2)])
   \<and> sharpe_of (Fin 0, Fin 0, NaN) = NaN
   \<and> \<not> fl_ge NaN (sharpe_of (Fin (1/2), Fin 0, Fin 0))"
proof -
  have "sqrt (1 / 4) = 1 / 2"
    by (simp add: real_sqrt_divide)
  then have "simulate_efficient_frontier (\<lambda>i k. if i = 0 then 1/2 else if k = 0 then 3/4 else 1/4)
      [Fin 0, Fin 0] [[Fin 1, Fin (- 1)], [Fin (- 1), Fin 1]] 2 0
     = Inr ([(Fin 0, Fin 0, NaN), (Fin (1/2), Fin 0, Fin 0)],
            [[Fin (1/2), Fin (1/2)], [Fin (3/4), Fin (1/4)]])"
    by (simp add: simulate_efficient_frontier_def draw_weights_def portfolio_performance_def
          series_times_def mat_vec_def np_dot_def fl_sub_def Let_def upt_rec [of 0 "numeral _"]
          upt_rec [of "Suc _" "numeral _"] upt_rec [of 1 "numeral _"])
  then show ?thesis
    by (simp add: get_max_sharpe_ratio_def sharpe_of_def vol_of_def ret_of_def fl_ge_def)
qed

text \<open>
  Claim C8, as amended. On an empty simulation result both selectors fail with the
  \<open>ValueError\<close> that \<^verbatim>\<open>np.argmax\<close> and \<^verbatim>\<open>np.argmin\<close> raise for an empty sequence.
\<close>

theorem selectors_empty_value_error:
  "get_max_sharpe_ratio [] weights_record = Inl ValueError
   \<and> get_min_volatility [] weights_record = Inl ValueError"
  by (simp add: get_max_sharpe_ratio_def get_min_volatility_def)

text \<open>Claim C8 as stated: the failure is not an \<open>EmptyInputError\<close>.\<close>

theorem selectors_empty_counterexample:
  "get_max_sharpe_ratio [] ([] :: fl list list) \<noteq> Inl EmptyInputError
   \<and> get_min_volatility [] ([] :: fl list list) \<noteq> Inl EmptyInputError"
  by (simp add: get_max_sharpe_ratio_def get_min_volatility_def)

section \<open>The Monte Carlo simulator\<close>

lemma fl_sum_Fin: "fl_sum (map Fin xs) = Fin (sum_list xs)"
  by (induction xs) auto







lemma trials_weights:
  "trials rng mean_returns cov_matrix rf is = Inr (results, weights_record) \<Longrightarrow>
     weights_record = map (draw_weights rng (length mean_returns)) is \<and> length results = length is"
proof (induction "is" arbitrary: results weights_record)
  case Nil
  then show ?case by simp
next
  case (Cons i "is")
  then show ?case
    by (auto simp: Let_def split: sum.splits prod.splits)
qed

lemma portfolio_performance_error:
  "portfolio_performance w m c = Inl e \<Longrightarrow> e = ValueError"
  by (auto simp: portfolio_performance_def series_times_def mat_vec_def np_dot_def Let_def
           split: if_splits sum.splits)

lemma trials_error: "trials rng m c rf is = Inl e \<Longrightarrow> e = ValueError"
proof (induction "is")
  case Nil
  then show ?case by simp
next
  case (Cons i "is")
  then show ?case
    by (auto simp: Let_def split: sum.splits prod.splits dest: portfolio_performance_error)
qed

lemma fl_div_zero_not_finite: "\<not> fl_isfinite (fl_div a (Fin 0))"
  by (cases a) auto

lemma trials_zero_vol:
  "trials rng m c rf is = Inr (results, weights_record) \<Longrightarrow> r \<in> set results \<Longrightarrow>
     vol_of r = Fin 0 \<Longrightarrow> \<not> fl_isfinite (sharpe_of r)"
proof (induction "is" arbitrary: results weights_record)
  case Nil
  then show ?case by simp
next
  case (Cons i "is")
  then show ?case
    by (auto simp: Let_def vol_of_def sharpe_of_def fl_div_zero_not_finite
             split: sum.splits prod.splits)
qed

lemma portfolio_performance_shapes:
  assumes "length w = length m" and "length c = length m" and "\<forall>r \<in> set c. length r = length m"
  shows "\<exists>ret std. portfolio_performance w m c = Inr (ret, std)"
  using assms by (simp add: portfolio_performance_def series_times_def mat_vec_def np_dot_def Let_def)

lemma length_draw_weights: "length (draw_weights rng n i) = n"
  by (simp add: draw_weights_def Let_def)

lemma trials_shapes:
  assumes "length c = length m" and "\<forall>r \<in> set c. length r = length m"
  shows "\<exists>results weights_record. trials rng m c rf is = Inr (results, weights_record)"
proof (induction "is")
  case Nil
  then show ?case by simp
next
  case (Cons i "is")
  obtain ret std where "portfolio_performance (draw_weights rng (length m) i) m c = Inr (ret, std)"
    using portfolio_performance_shapes [OF _ assms] length_draw_weights by metis
  with Cons show ?case
    by (auto simp: Let_def)
qed

text \<open>
  Claim C9, as amended. The simulator has no guard against a zero volatility and never
  signals \<open>NumericError\<close>: whenever the shapes of the inputs fit, all trials are carried out
  and recorded, and every record whose volatility is exactly zero holds a Sharpe ratio that
  is not finite (an infinity, or NaN when the return equals the risk-free rate). That
  record is part of the result set handed to the selectors.
\<close>

theorem simulator_records_zero_volatility:
  "simulate_efficient_frontier rng mean_returns cov_matrix num_portfolios rf \<noteq> Inl NumericError
   \<and> (length cov_matrix = length mean_returns
        \<and> (\<forall>r \<in> set cov_matrix. length r = length mean_returns) \<longrightarrow>
      (\<exists>results weights_record.
         simulate_efficient_frontier rng mean_returns cov_matrix num_portfolios rf
           = Inr (results, weights_record)
         \<and> length results = num_portfolios
         \<and> (\<forall>r \<in> set results. vol_of r = Fin 0 \<longrightarrow> \<not> fl_isfinite (sharpe_of r))))"
proof (intro conjI impI)
  show "simulate_efficient_frontier rng mean_returns cov_matrix num_portfolios rf \<noteq> Inl NumericError"
    using trials_error [of rng mean_returns cov_matrix rf "[0..<num_portfolios]" NumericError]
    by (auto simp: simulate_efficient_frontier_def)
next
  assume sh: "length cov_matrix = length mean_returns
        \<and> (\<forall>r \<in> set cov_matrix. length r = length mean_returns)"
  then obtain results weights_record
    where t: "trials rng mean_returns cov_matrix rf [0..<num_portfolios] = Inr (results, weights_record)"
    using trials_shapes by blast
  from trials_weights [OF t] trials_zero_vol [OF t]
  show "\<exists>results weights_record.
         simulate_efficient_frontier rng mean_returns cov_matrix num_portfolios rf
           = Inr (results, weights_record)
         \<and> length results = num_portfolios
         \<and> (\<forall>r \<in> set results. vol_of r = Fin 0 \<longrightarrow> \<not> fl_isfinite (sharpe_of r))"
    using t by (auto simp: simulate_efficient_frontier_def)
qed

lemma upt_2: "[0..<2] = [0, 1]"
  by (simp add: upt_rec)

theorem simulator_records_zero_volatility_witness:
  "simulate_efficient_frontier (\<lambda>i k. 1/2) [Fin (1/50)] [[Fin 0]] 2 (1/50)
     = Inr ([(Fin 0, Fin (1/50), NaN), (Fin 0, Fin (1/50), NaN)], [[Fin 1], [Fin 1]])
   \<and> vol_of (Fin 0, Fin (1/50), NaN) = Fin 0
   \<and> \<not> fl_isfinite (sharpe_of (Fin 0, Fin (1/50), NaN))"
  using simulator_records_zero_volatility [of "\<lambda>i k. 1/2" "[Fin (1/50)]" "[[Fin 0]]" 2 "1/50"]
  by (simp add: simulate_efficient_frontier_def upt_2 draw_weights_def portfolio_performance_def series_times_def
        mat_vec_def np_dot_def fl_sub_def vol_of_def sharpe_of_def Let_def)

text \<open>
  Claim C9 as stated fails for one asset with variance zero (a constant-growth price
  series): the trial has volatility zero, no error is signalled, and the record with the
  infinite Sharpe ratio is returned.
\<close>

theorem simulator_numeric_error_counterexample:
  "simulate_efficient_frontier (\<lambda>i k. 1/2) [Fin 1] [[Fin 0]] 1 (1/50)
     = Inr ([(Fin 0, Fin 1, PInf)], [[Fin 1]])
   \<and> simulate_efficient_frontier (\<lambda>i k. 1/2) [Fin 1] [[Fin 0]] 1 (1/50) \<noteq> Inl NumericError"
  by (simp add: simulate_efficient_frontier_def draw_weights_def portfolio_performance_def series_times_def
        mat_vec_def np_dot_def fl_sub_def Let_def)

section \<open>The return estimator\<close>

lemma dropna_short:
  assumes "length rs < 2" and "\<forall>r \<in> set rs. r \<noteq> []"
  shows "dropna (pct_change rs) = []"
proof (cases rs)
  case Nil
  then show ?thesis by (simp add: dropna_def pct_change_def)
next
  case (Cons r0 rest)
  with assms(1) have rest: "rest = []" by simp
  from assms(2) Cons have "r0 \<noteq> []" by simp
  then have "list_ex fl_isnan (map (\<lambda>p. NaN) r0)"
    by (cases r0) auto
  then show ?thesis
    by (simp add: Cons rest dropna_def pct_change_def)
qed

lemma df_mean_no_rows:
  "df_mean \<lparr>columns = cs, rows = []\<rparr> = replicate (length cs) NaN"
  by (simp add: df_mean_def column_def fl_mean_def map_replicate_const)

lemma df_cov_no_rows:
  "rows (df_cov \<lparr>columns = cs, rows = []\<rparr>) = replicate (length cs) (replicate (length cs) NaN)"
  by (simp add: df_cov_def df_pairwise_def column_def cov_entry_def map_replicate_const)

text \<open>
  Claim C7, as amended. \<^verbatim>\<open>calculate_metrics\<close> never signals an error: for every price series
  it returns the triple (return series, annualized means, annualized covariance matrix). For
  a price series of fewer than two rows (and at least one asset) the return series is empty
  and every mean and every covariance is NaN.
\<close>

theorem calculate_metrics_never_fails:
  "\<exists>returns mean_returns cov_matrix.
     calculate_metrics data = Inr (returns, mean_returns, cov_matrix)
     \<and> (length (rows data) < 2 \<and> columns data \<noteq> []
          \<and> (\<forall>r \<in> set (rows data). length r = length (columns data)) \<longrightarrow>
        rows returns = []
        \<and> mean_returns = replicate (length (columns data)) NaN
        \<and> rows cov_matrix
            = replicate (length (columns data)) (replicate (length (columns data)) NaN))"
proof -
  have "dropna (pct_change (rows data)) = []"
    if "length (rows data) < 2" and "columns data \<noteq> []"
      and "\<forall>r \<in> set (rows data). length r = length (columns data)"
    using that by (intro dropna_short) auto
  then show ?thesis
    by (auto simp: calculate_metrics_def Let_def df_mean_no_rows df_cov_no_rows frame_scale_def
          map_replicate_const)
qed

theorem calculate_metrics_never_fails_witness:
  "calculate_metrics \<lparr>columns = [''A'', ''B''], rows = [[10, 20]]\<rparr>
     = Inr (\<lparr>columns = [''A'', ''B''], rows = []\<rparr>, [NaN, NaN],
            \<lparr>columns = [''A'', ''B''], rows = [[NaN, NaN], [NaN, NaN]]\<rparr>)"
  using calculate_metrics_never_fails [of "\<lparr>columns = [''A'', ''B''], rows = [[10, 20]]\<rparr>"]
  by (simp add: calculate_metrics_def Let_def pct_change_def dropna_def df_mean_def df_cov_def
        df_pairwise_def column_def fl_mean_def cov_entry_def frame_scale_def)

text \<open>
  Claim C7 as stated fails on a price series of one row and on a price series whose only
  column is constant (returns of variance zero): both are answered with a triple, not with
  \<open>DataError\<close>.
\<close>

theorem calculate_metrics_data_error_counterexample:
  "calculate_metrics \<lparr>columns = [''A''], rows = [[10]]\<rparr>
     = Inr (\<lparr>columns = [''A''], rows = []\<rparr>, [NaN], \<lparr>columns = [''A''], rows = [[NaN]]\<rparr>)
   \<and> calculate_metrics \<lparr>columns = [''A''], rows = [[10], [10], [10]]\<rparr>
     = Inr (\<lparr>columns = [''A''], rows = [[Fin 0], [Fin 0]]\<rparr>, [Fin 0],
            \<lparr>columns = [''A''], rows = [[Fin 0]]\<rparr>)"
  by (simp add: calculate_metrics_def Let_def pct_change_def dropna_def df_mean_def df_cov_def
        df_pairwise_def column_def fl_mean_def cov_entry_def dev_prod_def frame_scale_def
        fl_sub_def)

section \<open>Quasi-diagonal ordering\<close>

lemma bounded_children_iff:
  "bounded_children link n \<longleftrightarrow>
     (\<forall>j<length link. child0 (link ! j) < n + int j \<and> child1 (link ! j) < n + int j)"
  by (auto simp: bounded_children_def)

lemma height_le_iff: "height n s \<le> k \<longleftrightarrow> (\<forall>x \<in> set s. nat (x - n + 1) \<le> k)"
  by (induction s) auto

lemma height_less_iff: "0 < k \<Longrightarrow> height n s < k \<longleftrightarrow> (\<forall>x \<in> set s. nat (x - n + 1) < k)"
  by (induction s) auto

lemma height_zero_iff: "height n s = 0 \<longleftrightarrow> (\<forall>x \<in> set s. x < n)"
  by (induction s) auto

lemma leaves_leaf: "x < n \<Longrightarrow> leaves link n x = [x]"
  by (simp add: leaves.simps)

lemma leaves_all_leaf: "\<forall>x \<in> set s. x < n \<Longrightarrow> concat (map (leaves link n) s) = s"
  by (induction s) (auto simp: leaves_leaf)

lemma bounded_childrenD:
  assumes "bounded_children link n" and "n \<le> x" and "x < n + int (length link)"
  shows "nat (x - n) < length link"
    and "child0 (link ! nat (x - n)) < x" and "child1 (link ! nat (x - n)) < x"
proof -
  show j: "nat (x - n) < length link" using assms(2,3) by linarith
  from assms(1) j have "child0 (link ! nat (x - n)) < n + int (nat (x - n))"
    and "child1 (link ! nat (x - n)) < n + int (nat (x - n))"
    by (auto simp: bounded_children_iff)
  with assms(2) show "child0 (link ! nat (x - n)) < x" and "child1 (link ! nat (x - n)) < x"
    by auto
qed

lemma leaves_expand:
  assumes "bounded_children link n" and "x < n + int (length link)"
  shows "concat (map (leaves link n) (expand link n x)) = leaves link n x"
proof (cases "n \<le> x")
  case True
  from bounded_childrenD [OF assms(1) True assms(2)] True
  show ?thesis
    by (simp add: expand_def leaves.simps [of link n x])
next
  case False
  then show ?thesis by (simp add: expand_def)
qed

lemma leaves_expand_all:
  assumes "bounded_children link n" and "\<forall>x \<in> set s. x < n + int (length link)"
  shows "concat (map (leaves link n) (concat (map (expand link n) s)))
           = concat (map (leaves link n) s)"
  using assms(2)
proof (induction s)
  case Nil
  then show ?case by simp
next
  case (Cons x s)
  then show ?case
    using leaves_expand [OF assms(1), of x] by simp
qed

lemma expand_smaller:
  assumes "bounded_children link n" and "x < n + int (length link)" and "y \<in> set (expand link n x)"
  shows "y < n + int (length link)" and "y < n \<or> y < x"
proof -
  show "y < n \<or> y < x"
  proof (cases "n \<le> x")
    case True
    from bounded_childrenD [OF assms(1) True assms(2)] assms(3) True
    show ?thesis by (auto simp: expand_def)
  next
    case False
    with assms(3) show ?thesis by (simp add: expand_def)
  qed
  with assms(2) show "y < n + int (length link)" by auto
qed

text \<open>Every pass of the loop strictly lowers the largest cluster identifier present.\<close>

lemma expand_height:
  assumes b: "bounded_children link n" and r: "\<forall>x \<in> set s. x < n + int (length link)"
    and h: "0 < height n s"
  shows "height n (concat (map (expand link n) s)) < height n s"
proof -
  have "nat (y - n + 1) < height n s" if "y \<in> set (concat (map (expand link n) s))" for y
  proof -
    from that obtain x where x: "x \<in> set s" and y: "y \<in> set (expand link n x)" by auto
    from x r have "x < n + int (length link)" by simp
    from expand_smaller(2) [OF b this y] show ?thesis
    proof
      assume "y < n"
      with h show ?thesis by simp
    next
      assume "y < x"
      moreover have "nat (x - n + 1) \<le> height n s"
        using x height_le_iff [of n s "height n s"] by simp
      ultimately show ?thesis using h by linarith
    qed
  qed
  with h show ?thesis by (simp add: height_less_iff)
qed

lemma quasi_while_leaves:
  assumes b: "bounded_children link n"
  shows "\<forall>x \<in> set s. x < n + int (length link) \<Longrightarrow>
           quasi_while link n s = Some (Inr (concat (map (leaves link n) s)))"
proof (induction "height n s" arbitrary: s rule: less_induct)
  case less
  show ?case
  proof (cases "height n s = 0")
    case True
    then have all: "\<forall>x \<in> set s. x < n" by (simp add: height_zero_iff)
    then have "\<not> (\<exists>x \<in> set s. n \<le> x)" by auto
    then show ?thesis
      using all by (subst quasi_while.simps) (simp add: leaves_all_leaf)
  next
    case False
    then have "\<not> (\<forall>x \<in> set s. x < n)" by (simp add: height_zero_iff)
    then have ex: "\<exists>x \<in> set s. n \<le> x" by (meson not_less)
    have ok: "\<forall>x \<in> set s. n \<le> x \<longrightarrow> nat (x - n) < length link"
      using less.prems by auto
    have r': "\<forall>y \<in> set (concat (map (expand link n) s)). y < n + int (length link)"
      using expand_smaller(1) [OF b] less.prems by auto
    have "height n (concat (map (expand link n) s)) < height n s"
      using expand_height [OF b less.prems] False by simp
    from less.hyps [OF this r']
    have "quasi_while link n (concat (map (expand link n) s))
            = Some (Inr (concat (map (leaves link n) s)))"
      by (simp add: leaves_expand_all [OF b less.prems])
    then show ?thesis
      using ex ok by (subst quasi_while.simps) simp
  qed
qed

lemma leaves_below:
  "\<forall>y \<in> set (leaves link n x). y < n \<or> y = x \<or> y < x"
proof (induction link n x rule: leaves.induct)
  case (1 link n x)
  show ?case
  proof (cases "n \<le> x \<and> nat (x - n) < length link
         \<and> child0 (link ! nat (x - n)) < x \<and> child1 (link ! nat (x - n)) < x")
    case True
    with 1 show ?thesis
      by (subst leaves.simps) fastforce
  next
    case False
    then show ?thesis by (subst leaves.simps) auto
  qed
qed

lemma leaves_are_leaves:
  "bounded_children link n \<Longrightarrow> x < n + int (length link) \<Longrightarrow>
     \<forall>y \<in> set (leaves link n x). y < n"
proof (induction link n x rule: leaves.induct)
  case (1 link n x)
  show ?case
  proof (cases "n \<le> x")
    case True
    note d = bounded_childrenD [OF "1.prems"(1) True "1.prems"(2)]
    have "child0 (link ! nat (x - n)) < n + int (length link)"
      and "child1 (link ! nat (x - n)) < n + int (length link)"
      using d "1.prems" by auto
    with "1.IH" True d "1.prems"(1) show ?thesis
      by (subst leaves.simps) auto
  next
    case False
    then show ?thesis by (simp add: leaves_leaf)
  qed
qed

lemma sum_singletons: "finite A \<Longrightarrow> (\<Sum>x\<in>A. {#x#}) = mset_set A"
  by (induction rule: finite_induct) auto

lemma mset_eq_mset_set:
  assumes "finite A" and "mset xs = mset_set A"
  shows "distinct xs" and "set xs = A"
proof -
  have "set_mset (mset xs) = A" using assms by simp
  then show s: "set xs = A" by simp
  have "count (mset xs) a = (if a \<in> set xs then 1 else 0)" for a
    unfolding assms(2) s using assms(1) by (simp add: count_mset_set')
  then show "distinct xs"
    unfolding distinct_count_atmost_1 by blast
qed

lemma leaves_cluster:
  assumes "bounded_children link n" and "j < length link"
  shows "leaves link n (n + int j)
           = leaves link n (child0 (link ! j)) @ leaves link n (child1 (link ! j))"
proof -
  have "n + int j < n + int (length link)" using assms(2) by simp
  from bounded_childrenD [OF assms(1) _ this]
  show ?thesis
    by (subst leaves.simps) simp
qed

lemma kids_take_Suc:
  "j < length link \<Longrightarrow>
     set (concat (map kids (take (Suc j) link)))
       = set (concat (map kids (take j link))) \<union> {child0 (link ! j), child1 (link ! j)}"
  by (auto simp: take_Suc_conv_app_nth kids_def)

lemma kids_of_row:
  assumes ct: "cluster_tree N link" and j: "j < length link"
  shows "0 \<le> child0 (link ! j)" and "child0 (link ! j) < int N + int j"
    and "0 \<le> child1 (link ! j)" and "child1 (link ! j) < int N + int j"
    and "child0 (link ! j) \<noteq> child1 (link ! j)"
    and "child0 (link ! j) \<notin> set (concat (map kids (take j link)))"
    and "child1 (link ! j) \<notin> set (concat (map kids (take j link)))"
proof -
  from ct j show "0 \<le> child0 (link ! j)" and "0 \<le> child1 (link ! j)"
    by (auto simp: cluster_tree_def)
  from ct j show "child0 (link ! j) < int N + int j" and "child1 (link ! j) < int N + int j"
    by (auto simp: cluster_tree_def bounded_children_iff)
  have "link = take j link @ link ! j # drop (Suc j) link"
    using j by (simp add: id_take_nth_drop [symmetric])
  then have "concat (map kids link)
      = concat (map kids (take j link)) @ kids (link ! j) @ concat (map kids (drop (Suc j) link))"
    by (metis concat.simps(2) concat_append list.simps(9) map_append)
  moreover have "distinct (concat (map kids link))"
    using ct by (simp add: cluster_tree_def)
  ultimately have d: "distinct (concat (map kids (take j link)) @ kids (link ! j)
      @ concat (map kids (drop (Suc j) link)))"
    by simp
  from d show "child0 (link ! j) \<noteq> child1 (link ! j)"
    by (simp add: kids_def)
  from d show "child0 (link ! j) \<notin> set (concat (map kids (take j link)))"
    and "child1 (link ! j) \<notin> set (concat (map kids (take j link)))"
    by (auto simp: kids_def)
qed

lemma kids_take_below:
  assumes ct: "cluster_tree N link" and j: "j \<le> length link"
    and x: "x \<in> set (concat (map kids (take j link)))"
  shows "0 \<le> x \<and> x + 1 < int N + int j"
proof -
  from x obtain r where r: "r \<in> set (take j link)" and xr: "x \<in> set (kids r)" by auto
  from r obtain i where i: "i < length (take j link)" and ri: "r = take j link ! i"
    by (auto simp: in_set_conv_nth)
  from i j have ij: "i < j" and il: "i < length link" by auto
  then have "r = link ! i" using ri by simp
  with kids_of_row(1-4) [OF ct il] xr ij show ?thesis
    by (auto simp: kids_def)
qed

lemma tree_cover:
  assumes ct: "cluster_tree N link"
  shows "j \<le> length link \<Longrightarrow>
     (\<Sum>x \<in> {0..<int N + int j} - set (concat (map kids (take j link))).
         mset (leaves link (int N) x)) = mset_set {0..<int N}"
proof (induction j)
  case 0
  have "(\<Sum>x \<in> {0..<int N}. mset (leaves link (int N) x)) = (\<Sum>x \<in> {0..<int N}. {#x#})"
    by (intro sum.cong) (auto simp: leaves_leaf)
  then show ?case by (simp add: sum_singletons)
next
  case (Suc j)
  then have j: "j < length link" by simp
  define C where "C = set (concat (map kids (take j link)))"
  define A where "A = {0..<int N + int j} - C"
  define c0 where "c0 = child0 (link ! j)"
  define c1 where "c1 = child1 (link ! j)"
  define f where "f = (\<lambda>x. mset (leaves link (int N) x))"
  note k = kids_of_row [OF ct j, folded c0_def c1_def C_def]
  have b: "bounded_children link (int N)" using ct by (simp add: cluster_tree_def)
  have IH: "sum f A = mset_set {0..<int N}"
    using Suc.IH j by (simp add: A_def C_def f_def)
  have finA: "finite A" by (simp add: A_def)
  have c0A: "c0 \<in> A" and c1A: "c1 \<in> A - {c0}"
    using k by (auto simp: A_def)
  have new: "int N + int j \<notin> A - {c0} - {c1}" by (simp add: A_def)
  have nC: "int N + int j \<notin> C"
  proof
    assume "int N + int j \<in> C"
    then have "int N + int j \<in> set (concat (map kids (take j link)))"
      by (simp only: C_def)
    from kids_take_below [OF ct _ this] j show False by simp
  qed
  have CS: "set (concat (map kids (take (Suc j) link))) = C \<union> {c0, c1}"
    by (simp only: kids_take_Suc [OF j] C_def c0_def c1_def)
  have "{0..<int N + int (Suc j)} - (C \<union> {c0, c1}) = insert (int N + int j) (A - {c0} - {c1})"
    using nC k(2,4) by (auto simp: A_def)
  then have "{0..<int N + int (Suc j)} - set (concat (map kids (take (Suc j) link)))
      = insert (int N + int j) (A - {c0} - {c1})"
    by (simp only: CS)
  then have "(\<Sum>x \<in> {0..<int N + int (Suc j)} - set (concat (map kids (take (Suc j) link))). f x)
      = f (int N + int j) + sum f (A - {c0} - {c1})"
    using finA new by simp
  also have "f (int N + int j) = f c0 + f c1"
    using leaves_cluster [OF b j] by (simp add: f_def c0_def c1_def)
  also have "f c0 + f c1 + sum f (A - {c0} - {c1}) = f c0 + (f c1 + sum f (A - {c0} - {c1}))"
    by (simp add: add.assoc)
  also have "f c1 + sum f (A - {c0} - {c1}) = sum f (A - {c0})"
    using sum.remove [of "A - {c0}" c1 f] finA c1A by simp
  also have "f c0 + sum f (A - {c0}) = sum f A"
    using sum.remove [of A c0 f] finA c0A by simp
  finally show ?case
    using IH by (simp add: f_def)
qed

lemma tree_kids_all:
  assumes ct: "cluster_tree N link"
  shows "set (concat (map kids link)) = {0..<int N + int (length link) - 1}"
proof (rule card_subset_eq)
  show "finite {0..<int N + int (length link) - 1}" by simp
  show "set (concat (map kids link)) \<subseteq> {0..<int N + int (length link) - 1}"
  proof
    fix x
    assume "x \<in> set (concat (map kids link))"
    then have "x \<in> set (concat (map kids (take (length link) link)))" by simp
    from kids_take_below [OF ct le_refl this]
    show "x \<in> {0..<int N + int (length link) - 1}" by simp
  qed
  have "distinct (concat (map kids link))"
    using ct by (simp add: cluster_tree_def)
  then have "card (set (concat (map kids link))) = length (concat (map kids link))"
    by (rule distinct_card)
  also have "length (concat (map kids link)) = 2 * length link"
    by (induction link) (auto simp: kids_def)
  also have "\<dots> = card {0..<int N + int (length link) - 1}"
    using ct by (auto simp: cluster_tree_def)
  finally show "card (set (concat (map kids link))) = card {0..<int N + int (length link) - 1}" .
qed

lemma tree_root_leaves:
  assumes ct: "cluster_tree N link"
  shows "mset (leaves link (int N) (int N + int (length link) - 1)) = mset_set {0..<int N}"
proof -
  have "{0..<int N + int (length link)} - set (concat (map kids link))
      = {0..<int N + int (length link)} - {0..<int N + int (length link) - 1}"
    by (simp only: tree_kids_all [OF ct])
  also have "\<dots> = {int N + int (length link) - 1}"
    using ct by (auto simp: cluster_tree_def)
  finally have "{0..<int N + int (length link)} - set (concat (map kids (take (length link) link)))
      = {int N + int (length link) - 1}"
    by simp
  with tree_cover [OF ct le_refl] show ?thesis by (simp del: set_concat)
qed

lemma quasi_diag_tree:
  assumes ct: "cluster_tree N link"
  shows "quasi_while link (count_of (last link)) [child0 (last link), child1 (last link)]
           = Some (Inr (leaves link (int N) (int N + int (length link) - 1)))"
proof -
  have b: "bounded_children link (int N)" and len: "length link = N - 1" and N: "2 \<le> N"
    and cnt: "count_of (last link) = int N"
    using ct by (simp_all add: cluster_tree_def)
  have ne: "link \<noteq> []" using len N by auto
  define j where "j = length link - 1"
  have j: "j < length link" and last: "last link = link ! j"
    using ne by (simp_all add: j_def last_conv_nth)
  have root: "int N + int (length link) - 1 = int N + int j"
    using j by (simp add: j_def)
  have "child0 (link ! j) < int N + int (length link)"
    and "child1 (link ! j) < int N + int (length link)"
    using b j by (auto simp: bounded_children_iff)
  then have "quasi_while link (int N) [child0 (link ! j), child1 (link ! j)]
      = Some (Inr (leaves link (int N) (child0 (link ! j)) @ leaves link (int N) (child1 (link ! j))))"
    using quasi_while_leaves [OF b, of "[child0 (link ! j), child1 (link ! j)]"] by simp
  moreover have "count_of (link ! j) = int N"
    using cnt last by simp
  ultimately show ?thesis
    by (simp add: last root leaves_cluster [OF b j])
qed

lemma quasi_diag_tree_result:
  assumes "cluster_tree N (astype_int link)"
  shows "\<exists>sortIx. getQuasiDiag link = Some (Inr sortIx) \<and> mset sortIx = mset_set {0..<int N}"
proof -
  let ?l = "astype_int link"
  have ne: "?l \<noteq> []" using assms by (auto simp: cluster_tree_def)
  then have "getQuasiDiag link = Some (Inr (leaves ?l (int N) (int N + int (length ?l) - 1)))"
    using quasi_diag_tree [OF assms] by (simp add: getQuasiDiag_def Let_def)
  with tree_root_leaves [OF assms] show ?thesis by simp
qed

lemma quasi_diag_bounded_result:
  assumes ne: "link \<noteq> []"
    and b: "bounded_children (astype_int link) (count_of (last (astype_int link)))"
  shows "\<exists>sortIx. getQuasiDiag link = Some (Inr sortIx)
           \<and> (\<forall>x \<in> set sortIx. x < count_of (last (astype_int link)))"
proof -
  let ?l = "astype_int link"
  let ?n = "count_of (last ?l)"
  have ne': "?l \<noteq> []" using ne by (simp add: astype_int_def)
  define j where "j = length ?l - 1"
  have j: "j < length ?l" and last: "last ?l = ?l ! j"
    using ne' by (simp_all add: j_def last_conv_nth)
  have c: "child0 (last ?l) < ?n + int (length ?l)" "child1 (last ?l) < ?n + int (length ?l)"
    using b j unfolding last by (auto simp: bounded_children_iff)
  then have "quasi_while ?l ?n [child0 (last ?l), child1 (last ?l)]
      = Some (Inr (leaves ?l ?n (child0 (last ?l)) @ leaves ?l ?n (child1 (last ?l))))"
    using quasi_while_leaves [OF b, of "[child0 (last ?l), child1 (last ?l)]"] by simp
  then have "getQuasiDiag link
      = Some (Inr (leaves ?l ?n (child0 (last ?l)) @ leaves ?l ?n (child1 (last ?l))))"
    using ne' by (simp add: getQuasiDiag_def Let_def)
  moreover have "\<forall>x \<in> set (leaves ?l ?n (child0 (last ?l)) @ leaves ?l ?n (child1 (last ?l))).
      x < ?n"
    using leaves_are_leaves [OF b c(1)] leaves_are_leaves [OF b c(2)] by auto
  ultimately show ?thesis by blast
qed

text \<open>
  Claim C4. For every well-formed cluster tree over \<open>N \<ge> 2\<close> leaves (\<open>N - 1\<close> merge rows,
  the last of member count \<open>N\<close>; the children of row \<open>j\<close> are identifiers \<open>\<ge> 0\<close> below
  \<open>N + j\<close>, that is original indices or clusters created earlier; no identifier is merged
  twice), \<^verbatim>\<open>getQuasiDiag\<close> returns a list that holds each of \<open>0, \<dots>, N - 1\<close> exactly once.
\<close>

theorem quasi_diag_permutation:
  assumes "cluster_tree N (astype_int link)"
  shows "\<exists>sortIx. getQuasiDiag link = Some (Inr sortIx)
           \<and> distinct sortIx \<and> set sortIx = {0..<int N} \<and> length sortIx = N"
proof -
  from quasi_diag_tree_result [OF assms] obtain sortIx
    where r: "getQuasiDiag link = Some (Inr sortIx)" and m: "mset sortIx = mset_set {0..<int N}"
    by blast
  have d: "distinct sortIx" and s: "set sortIx = {0..<int N}"
    using mset_eq_mset_set [OF _ m] by simp_all
  have "length sortIx = card (set sortIx)"
    using d by (simp add: distinct_card)
  also have "\<dots> = N"
    by (simp add: s)
  finally show ?thesis
    using r d s by blast
qed

theorem quasi_diag_permutation_witness:
  "cluster_tree 4 (astype_int [(1, 3, 1/10, 2), (0, 4, 1/5, 3), (2, 5, 3/10, 4)])
   \<and> getQuasiDiag [(1, 3, 1/10, 2), (0, 4, 1/5, 3), (2, 5, 3/10, 4)] = Some (Inr [2, 0, 1, 3])
   \<and> distinct [2, 0, 1, 3 :: int] \<and> set [2, 0, 1, 3] = {0..<int 4}"
proof -
  have ct: "cluster_tree 4 (astype_int [(1, 3, 1/10, 2), (0, 4, 1/5, 3), (2, 5, 3/10, 4)])"
    by (simp add: cluster_tree_def astype_int_def trunc_def bounded_children_iff kids_def
          child0_def child1_def count_of_def less_Suc_eq numeral_3_eq_3)
  have "getQuasiDiag [(1, 3, 1/10, 2), (0, 4, 1/5, 3), (2, 5, 3/10, 4)] = Some (Inr [2, 0, 1, 3])"
    by (simp add: getQuasiDiag_def astype_int_def trunc_def quasi_while.simps expand_def
          child0_def child1_def count_of_def)
  with ct quasi_diag_permutation [OF ct] show ?thesis by auto
qed

text \<open>
  Claim C10, as amended. On every non-empty linkage array in which both children of each
  row \<open>j\<close> are below \<open>N + j\<close>, where \<open>N\<close> is the member count of the last row,
  \<^verbatim>\<open>getQuasiDiag\<close> terminates without an exception and returns a list of original indices
  (all below \<open>N\<close>): by \<open>expand_height\<close> every pass of the loop strictly lowers the largest
  cluster identifier present. The list has exactly \<open>N\<close> entries when the array is moreover a
  cluster tree over \<open>N\<close> leaves.
\<close>

theorem quasi_diag_terminates:
  assumes "link \<noteq> []"
    and "bounded_children (astype_int link) (count_of (last (astype_int link)))"
  shows "\<exists>sortIx. getQuasiDiag link = Some (Inr sortIx)
           \<and> (\<forall>x \<in> set sortIx. x < count_of (last (astype_int link)))
           \<and> (\<forall>N. cluster_tree N (astype_int link) \<longrightarrow> length sortIx = N)"
proof -
  from quasi_diag_bounded_result [OF assms] obtain sortIx
    where r: "getQuasiDiag link = Some (Inr sortIx)"
      and l: "\<forall>x \<in> set sortIx. x < count_of (last (astype_int link))"
    by blast
  have "length sortIx = N" if ct: "cluster_tree N (astype_int link)" for N
  proof -
    from quasi_diag_tree_result [OF ct] r have "mset sortIx = mset_set {0..<int N}"
      by auto
    then have "size (mset sortIx) = size (mset_set {0..<int N})"
      by simp
    then show ?thesis by simp
  qed
  with r l show ?thesis by blast
qed

theorem quasi_diag_terminates_witness:
  "bounded_children (astype_int [(0, 1, 1/10, 2), (3, 2, 1/5, 3)])
      (count_of (last (astype_int [(0, 1, 1/10, 2), (3, 2, 1/5, 3)])))
   \<and> getQuasiDiag [(0, 1, 1/10, 2), (3, 2, 1/5, 3)] = Some (Inr [0, 1, 2])
   \<and> cluster_tree 3 (astype_int [(0, 1, 1/10, 2), (3, 2, 1/5, 3)])
   \<and> length [0, 1, 2 :: int] = 3"
proof -
  have b: "bounded_children (astype_int [(0, 1, 1/10, 2), (3, 2, 1/5, 3)])
      (count_of (last (astype_int [(0, 1, 1/10, 2), (3, 2, 1/5, 3)])))"
    by (simp add: astype_int_def trunc_def bounded_children_iff
          child0_def child1_def count_of_def less_Suc_eq)
  have ct: "cluster_tree 3 (astype_int [(0, 1, 1/10, 2), (3, 2, 1/5, 3)])"
    by (simp add: cluster_tree_def astype_int_def trunc_def bounded_children_iff kids_def
          child0_def child1_def count_of_def less_Suc_eq)
  have "getQuasiDiag [(0, 1, 1/10, 2), (3, 2, 1/5, 3)] = Some (Inr [0, 1, 2])"
    by (simp add: getQuasiDiag_def astype_int_def trunc_def quasi_while.simps expand_def
          child0_def child1_def count_of_def)
  with b ct quasi_diag_terminates [OF _ b] show ?thesis by auto
qed

text \<open>
  Claim C10 as stated fails in its last part: the bound on the children alone does not give
  \<open>N\<close> entries. Here \<open>N = 3\<close>, both rows respect the bound, and two entries are returned.
\<close>

theorem quasi_diag_length_counterexample:
  "bounded_children (astype_int [(0, 1, 1/10, 2), (0, 1, 1/5, 3)])
      (count_of (last (astype_int [(0, 1, 1/10, 2), (0, 1, 1/5, 3)])))
   \<and> count_of (last (astype_int [(0, 1, 1/10, 2), (0, 1, 1/5, 3)])) = 3
   \<and> getQuasiDiag [(0, 1, 1/10, 2), (0, 1, 1/5, 3)] = Some (Inr [0, 1])
   \<and> length [0, 1 :: int] \<noteq> 3"
  by (simp add: getQuasiDiag_def astype_int_def trunc_def quasi_while.simps expand_def
        bounded_children_iff child0_def child1_def count_of_def less_Suc_eq)

section \<open>Scaling the covariance matrix\<close>





















section \<open>Recursive bisection\<close>



















section \<open>Weight vectors sum to one\<close>








section \<open>The order of the allocation\<close>














end
